theory Spec2Isabelle
  imports Main
begin

section \<open>Bytes, indices and run-time panics\<close>

text \<open>
  A Go \<^verbatim>\<open>string\<close> is a sequence of bytes; it is modelled by \<^typ>\<open>string\<close>, whose
  characters are 8-bit. Go's \<^verbatim>\<open>int\<close> indices are modelled by \<^typ>\<open>int\<close>. An index
  or a slice expression out of range panics in Go; here it is the value \<open>Inl\<close>.
\<close>

datatype panic = IndexOutOfRange | SliceBoundsOutOfRange

abbreviation (input) tab :: char where
  "tab \<equiv> CHR 0x09"

abbreviation (input) newline :: char where
  "newline \<equiv> CHR 0x0A"

text \<open>\<^verbatim>\<open>xs[i]\<close>\<close>

definition index :: "'a list \<Rightarrow> int \<Rightarrow> panic + 'a" where
  "index xs i = (if 0 \<le> i \<and> i < int (length xs) then Inr (xs ! nat i) else Inl IndexOutOfRange)"

text \<open>\<^verbatim>\<open>s[lo:]\<close>\<close>

definition slice_from :: "'a list \<Rightarrow> int \<Rightarrow> panic + 'a list" where
  "slice_from s lo =
     (if 0 \<le> lo \<and> lo \<le> int (length s) then Inr (drop (nat lo) s) else Inl SliceBoundsOutOfRange)"

text \<open>\<^verbatim>\<open>s[:hi]\<close>\<close>

definition slice_to :: "'a list \<Rightarrow> int \<Rightarrow> panic + 'a list" where
  "slice_to s hi =
     (if 0 \<le> hi \<and> hi \<le> int (length s) then Inr (take (nat hi) s) else Inl SliceBoundsOutOfRange)"

section \<open>The functions of package \<^verbatim>\<open>strings\<close> that the code calls\<close>

text \<open>\<^verbatim>\<open>strings.HasPrefix(s, prefix)\<close>: \<^verbatim>\<open>len(s) >= len(prefix) && s[:len(prefix)] == prefix\<close>.\<close>

definition HasPrefix :: "string \<Rightarrow> string \<Rightarrow> bool" where
  "HasPrefix s pre = (length pre \<le> length s \<and> take (length pre) s = pre)"

definition HasSuffix :: "string \<Rightarrow> string \<Rightarrow> bool" where
  "HasSuffix s suf = (length suf \<le> length s \<and> drop (length s - length suf) s = suf)"

text \<open>
  \<^verbatim>\<open>strings.LastIndexByte(s, c)\<close>: the loop
  \<^verbatim>\<open>for i := len(s) - 1; i >= 0; i-- { if s[i] == c { return i } }; return -1\<close>.
  The third argument of the scan is \<open>i + 1\<close>.
\<close>

fun LastIndexByte_scan :: "string \<Rightarrow> char \<Rightarrow> nat \<Rightarrow> int" where
  "LastIndexByte_scan s c 0 = - 1"
| "LastIndexByte_scan s c (Suc i) = (if s ! i = c then int i else LastIndexByte_scan s c i)"

definition LastIndexByte :: "string \<Rightarrow> char \<Rightarrow> int" where
  "LastIndexByte s c = LastIndexByte_scan s c (length s)"

text \<open>
  \<^verbatim>\<open>strings.LastIndex(s, substr)\<close>: the index of the last instance of \<open>substr\<close> in
  \<open>s\<close>, or \<open>-1\<close>. The start positions are tried from \<open>len(s) - len(substr)\<close> down to 0.
\<close>

definition occurs_at :: "string \<Rightarrow> string \<Rightarrow> nat \<Rightarrow> bool" where
  "occurs_at substr s k = (k + length substr \<le> length s \<and> take (length substr) (drop k s) = substr)"

fun LastIndex_scan :: "string \<Rightarrow> string \<Rightarrow> nat \<Rightarrow> int" where
  "LastIndex_scan s substr 0 = (if occurs_at substr s 0 then 0 else - 1)"
| "LastIndex_scan s substr (Suc k) =
     (if occurs_at substr s (Suc k) then int (Suc k) else LastIndex_scan s substr k)"

definition LastIndex :: "string \<Rightarrow> string \<Rightarrow> int" where
  "LastIndex s substr =
     (if length s < length substr then - 1 else LastIndex_scan s substr (length s - length substr))"

text \<open>
  \<^verbatim>\<open>strings.Split(s, sep)\<close> for a separator of one byte: cut at the first separator,
  go on with the rest; the text after the last separator is the last field. The result
  always has at least one field: \<^verbatim>\<open>Split("", "\n")\<close> is \<^verbatim>\<open>[""]\<close>.
\<close>

function Split :: "string \<Rightarrow> char \<Rightarrow> string list" where
  "Split s sep =
     (case dropWhile (\<lambda>c. c \<noteq> sep) s of
        [] \<Rightarrow> [s]
      | _ # rest \<Rightarrow> takeWhile (\<lambda>c. c \<noteq> sep) s # Split rest sep)"
  by pat_completeness auto
termination
proof (relation "measure (\<lambda>(s, sep). length s)")
  show "wf (measure (\<lambda>(s, sep). length s))"
    by simp
next
  fix s :: string and sep x rest
  assume "dropWhile (\<lambda>c. c \<noteq> sep) s = x # rest"
  then have "length (x # rest) \<le> length s"
    using length_dropWhile_le [of "\<lambda>c. c \<noteq> sep" s] by simp
  then show "((rest, sep), (s, sep)) \<in> measure (\<lambda>(s, sep). length s)"
    by simp
qed

text \<open>
  \<^verbatim>\<open>strings.TrimSpace(s)\<close> removes the leading and the trailing white space, as
  \<^verbatim>\<open>unicode.IsSpace\<close> defines it on the runes of the UTF-8 decoding. \<open>spaceRunes\<close>
  lists the UTF-8 encodings of these runes: U+0009 to U+000D, U+0020, U+0085, U+00A0,
  U+1680, U+2000 to U+200A, U+2028, U+2029, U+202F, U+205F and U+3000. A byte sequence
  that is not valid UTF-8 decodes to U+FFFD, which is not white space.
\<close>

definition spaceRunes :: "string list" where
  "spaceRunes =
     [[CHR 0x09], [CHR 0x0A], [CHR 0x0B], [CHR 0x0C], [CHR 0x0D], [CHR 0x20],
      [CHR 0xC2, CHR 0x85], [CHR 0xC2, CHR 0xA0], [CHR 0xE1, CHR 0x9A, CHR 0x80],
      [CHR 0xE2, CHR 0x80, CHR 0x80], [CHR 0xE2, CHR 0x80, CHR 0x81], [CHR 0xE2, CHR 0x80, CHR 0x82],
      [CHR 0xE2, CHR 0x80, CHR 0x83], [CHR 0xE2, CHR 0x80, CHR 0x84], [CHR 0xE2, CHR 0x80, CHR 0x85],
      [CHR 0xE2, CHR 0x80, CHR 0x86], [CHR 0xE2, CHR 0x80, CHR 0x87], [CHR 0xE2, CHR 0x80, CHR 0x88],
      [CHR 0xE2, CHR 0x80, CHR 0x89], [CHR 0xE2, CHR 0x80, CHR 0x8A], [CHR 0xE2, CHR 0x80, CHR 0xA8],
      [CHR 0xE2, CHR 0x80, CHR 0xA9], [CHR 0xE2, CHR 0x80, CHR 0xAF], [CHR 0xE2, CHR 0x81, CHR 0x9F],
      [CHR 0xE3, CHR 0x80, CHR 0x80]]"

text \<open>The width in bytes of the white-space rune that \<open>s\<close> starts (ends) with; 0 if none.\<close>

definition leadingSpace :: "string \<Rightarrow> nat" where
  "leadingSpace s = (case filter (HasPrefix s) spaceRunes of [] \<Rightarrow> 0 | r # _ \<Rightarrow> length r)"

definition trailingSpace :: "string \<Rightarrow> nat" where
  "trailingSpace s = (case filter (HasSuffix s) spaceRunes of [] \<Rightarrow> 0 | r # _ \<Rightarrow> length r)"

lemma leadingSpace_le: "leadingSpace s \<le> length s"
proof (cases "filter (HasPrefix s) spaceRunes")
  case Nil
  then show ?thesis by (simp add: leadingSpace_def)
next
  case (Cons r rs)
  then have "r \<in> set (filter (HasPrefix s) spaceRunes)" by simp
  then have "HasPrefix s r" by simp
  with Cons show ?thesis by (simp add: leadingSpace_def HasPrefix_def)
qed

lemma trailingSpace_le: "trailingSpace s \<le> length s"
proof (cases "filter (HasSuffix s) spaceRunes")
  case Nil
  then show ?thesis by (simp add: trailingSpace_def)
next
  case (Cons r rs)
  then have "r \<in> set (filter (HasSuffix s) spaceRunes)" by simp
  then have "HasSuffix s r" by simp
  with Cons show ?thesis by (simp add: trailingSpace_def HasSuffix_def)
qed

function TrimLeft :: "string \<Rightarrow> string" where
  "TrimLeft s = (if leadingSpace s = 0 then s else TrimLeft (drop (leadingSpace s) s))"
  by pat_completeness auto
termination
proof (relation "measure length")
  show "wf (measure length)"
    by simp
next
  fix s :: string
  assume "leadingSpace s \<noteq> 0"
  then show "(drop (leadingSpace s) s, s) \<in> measure length"
    using leadingSpace_le [of s] by simp
qed

function TrimRight :: "string \<Rightarrow> string" where
  "TrimRight s = (if trailingSpace s = 0 then s else TrimRight (take (length s - trailingSpace s) s))"
  by pat_completeness auto
termination
proof (relation "measure length")
  show "wf (measure length)"
    by simp
next
  fix s :: string
  assume "trailingSpace s \<noteq> 0"
  then show "(take (length s - trailingSpace s) s, s) \<in> measure length"
    using trailingSpace_le [of s] by simp
qed

definition TrimSpace :: "string \<Rightarrow> string" where
  "TrimSpace s = TrimRight (TrimLeft s)"

text \<open>
  \<^verbatim>\<open>strings.Replace(s, old, new, -1)\<close>: every non-overlapping instance of \<open>old\<close>,
  found from left to right, is replaced by \<open>new\<close>. Only a non-empty \<open>old\<close> is
  modelled (the code passes the two bytes of the middle dot).
\<close>

fun Replace_all :: "string \<Rightarrow> string \<Rightarrow> string \<Rightarrow> string" where
  "Replace_all [] (c # cs) new = []"
| "Replace_all (x # xs) (c # cs) new =
     (if HasPrefix (x # xs) (c # cs) then new @ Replace_all (drop (length cs) xs) (c # cs) new
      else x # Replace_all xs (c # cs) new)"

definition Replace :: "string \<Rightarrow> string \<Rightarrow> string \<Rightarrow> string" where
  "Replace s old new = (if old = new then s else Replace_all s old new)"

section \<open>\<^verbatim>\<open>strconv.Atoi\<close>\<close>

text \<open>
  \<^verbatim>\<open>Atoi\<close> returns a value and an error, and the value is not always 0 when the error
  is set: on a range error it is the nearest bound of \<^verbatim>\<open>int\<close>. The code under
  verification drops the error and keeps the value, so both are modelled.
  \<^verbatim>\<open>int\<close> has \<open>intSize\<close> bits; the targets of this repository are 64-bit.
\<close>

datatype NumError = ErrSyntax | ErrRange

definition intSize :: nat where
  "intSize = 64"

definition maxUint64 :: int where
  "maxUint64 = 2 ^ 64 - 1"

text \<open>
  The loop of \<^verbatim>\<open>ParseUint(s, 10, 0)\<close> over the bytes of \<open>s\<close>, with
  \<^verbatim>\<open>cutoff = maxUint64/10 + 1\<close> and \<^verbatim>\<open>maxVal = 1<<bitSize - 1\<close>. \<open>n\<close> is a
  \<^verbatim>\<open>uint64\<close>: the sum \<^verbatim>\<open>n1 := n + uint64(d)\<close> wraps around, which the test
  \<^verbatim>\<open>n1 < n\<close> detects. The unsigned values are written as integers. A byte that
  is not a decimal digit is a syntax error (a letter is a digit \<open>\<ge> 10\<close>, refused by
  \<^verbatim>\<open>d >= byte(base)\<close>; any other byte is the default case of the switch).
\<close>

fun ParseUint_loop :: "int \<Rightarrow> string \<Rightarrow> int \<times> NumError option" where
  "ParseUint_loop n [] = (n, None)"
| "ParseUint_loop n (c # cs) =
     (if 48 \<le> (of_char c :: int) \<and> (of_char c :: int) \<le> 57 then
        (if maxUint64 div 10 + 1 \<le> n then (2 ^ intSize - 1, Some ErrRange)
         else
           (let n10 = n * 10; n1 = (n10 + (of_char c - 48)) mod 2 ^ 64 in
            if n1 < n10 \<or> 2 ^ intSize - 1 < n1 then (2 ^ intSize - 1, Some ErrRange)
            else ParseUint_loop n1 cs))
      else (0, Some ErrSyntax))"

definition ParseUint :: "string \<Rightarrow> int \<times> NumError option" where
  "ParseUint s = (if s = [] then (0, Some ErrSyntax) else ParseUint_loop 0 s)"

text \<open>\<^verbatim>\<open>ParseInt(s, 10, 0)\<close>: an optional sign, then \<^verbatim>\<open>ParseUint\<close>, then the range check.\<close>

definition ParseInt :: "string \<Rightarrow> int \<times> NumError option" where
  "ParseInt s =
     (if s = [] then (0, Some ErrSyntax)
      else
        (let neg = (hd s = CHR ''-'');
             s1 = (if hd s = CHR ''+'' \<or> hd s = CHR ''-'' then tl s else s);
             (un, err) = ParseUint s1
         in if err = Some ErrSyntax then (0, err)
            else
              (let cutoff = 2 ^ (intSize - 1) in
               if \<not> neg \<and> cutoff \<le> un then (cutoff - 1, Some ErrRange)
               else if neg \<and> cutoff < un then (- cutoff, Some ErrRange)
               else (if neg then - un else un, None))))"

text \<open>
  The fast path of \<^verbatim>\<open>Atoi\<close> for short inputs: \<^verbatim>\<open>ch -= '0'\<close> is a subtraction of
  bytes and wraps around; \<open>None\<close> is the syntax error.
\<close>

fun Atoi_fast_loop :: "int \<Rightarrow> string \<Rightarrow> int option" where
  "Atoi_fast_loop n [] = Some n"
| "Atoi_fast_loop n (ch # s) =
     (let d = (of_char ch + 256 - 48) mod 256 :: nat in
      if 9 < d then None else Atoi_fast_loop (n * 10 + int d) s)"

definition Atoi :: "string \<Rightarrow> int \<times> NumError option" where
  "Atoi s =
     (let sLen = length s in
      if (intSize = 32 \<and> 0 < sLen \<and> sLen < 10) \<or> (intSize = 64 \<and> 0 < sLen \<and> sLen < 19) then
        (let signed = (hd s = CHR ''-'' \<or> hd s = CHR ''+'');
             s1 = (if signed then tl s else s)
         in if signed \<and> length s1 < 1 then (0, Some ErrSyntax)
            else
              (case Atoi_fast_loop 0 s1 of
                 None \<Rightarrow> (0, Some ErrSyntax)
               | Some n \<Rightarrow> (if hd s = CHR ''-'' then - n else n, None)))
      else ParseInt s)"

section \<open>The data model\<close>

text \<open>
  \<^verbatim>\<open>frame\<close> is \<^verbatim>\<open>raven.StacktraceFrame\<close>, with the fields that the code sets (the
  others keep their zero value); \<^verbatim>\<open>ReportableStackTrace\<close> is \<^verbatim>\<open>raven.Stacktrace\<close>.
  A \<^verbatim>\<open>*ReportableStackTrace\<close> is an option: \<open>None\<close> is \<^verbatim>\<open>nil\<close>.
\<close>

record frame =
  AbsolutePath :: string
  Filename :: string
  Lineno :: int
  InApp :: bool
  Module :: string
  Function :: string

record ReportableStackTrace =
  Frames :: "frame list"

section \<open>The functions of \<^verbatim>\<open>reportable.go\<close>\<close>

definition trimPath :: "string \<Rightarrow> panic + string" where
  "trimPath filename =
     (let src = ''/src/''; prefix = LastIndex filename src in
      if prefix = - 1 then Inr filename else slice_from filename (prefix + int (length src)))"

text \<open>The middle dot U+00B7 of the source's string literal, in UTF-8.\<close>

definition middleDot :: string where
  "middleDot = [CHR 0xC2, CHR 0xB7]"

definition functionName :: "string \<Rightarrow> panic + (string \<times> string)" where
  "functionName fnName =
     (let idx = LastIndex fnName ''.'' in
      if idx \<noteq> - 1 then
        (case slice_to fnName idx of
           Inl e \<Rightarrow> Inl e
         | Inr pack \<Rightarrow>
             (case slice_from fnName (idx + 1) of
                Inl e \<Rightarrow> Inl e
              | Inr name \<Rightarrow> Inr (pack, Replace name middleDot ''.'')))
      else Inr ('''', Replace fnName middleDot ''.''))"

text \<open>The result is \<^verbatim>\<open>(newI, file, line, fnName)\<close>.\<close>

definition parsePrintedStackEntry ::
  "string list \<Rightarrow> int \<Rightarrow> panic + (int \<times> string \<times> int \<times> string)" where
  "parsePrintedStackEntry lines i =
     (case index lines i of
        Inl e \<Rightarrow> Inl e
      | Inr fnName \<Rightarrow>
          if i < int (length lines) - 1 then
            (case index lines (i + 1) of
               Inl e \<Rightarrow> Inl e
             | Inr next_line \<Rightarrow>
                 if HasPrefix next_line [tab] then
                   (let fileLine = TrimSpace next_line;
                        lineSep = LastIndexByte fileLine CHR '':''
                    in if lineSep = - 1 then Inr (i + 1, fileLine, 0, fnName)
                       else
                         (case slice_to fileLine lineSep of
                            Inl e \<Rightarrow> Inl e
                          | Inr file \<Rightarrow>
                              (case slice_from fileLine (lineSep + 1) of
                                 Inl e \<Rightarrow> Inl e
                               | Inr lineStr \<Rightarrow> Inr (i + 1, file, fst (Atoi lineStr), fnName))))
                 else Inr (i, '''', 0, fnName))
          else Inr (i, '''', 0, fnName))"

text \<open>
  The body of the loop of \<^verbatim>\<open>parsePrintedStack\<close> after the call of
  \<^verbatim>\<open>parsePrintedStackEntry\<close>: it composes the frame.
\<close>

definition composeFrame :: "string \<Rightarrow> int \<Rightarrow> string \<Rightarrow> panic + frame" where
  "composeFrame file line fnName =
     (case trimPath file of
        Inl e \<Rightarrow> Inl e
      | Inr trimmed \<Rightarrow>
          (let fr = \<lparr>AbsolutePath = file, Filename = trimmed, Lineno = line, InApp = False,
                      Module = ''unknown'', Function = fnName\<rparr>
           in if fnName \<noteq> ''unknown'' then
                (case functionName fnName of
                   Inl e \<Rightarrow> Inl e
                 | Inr (pack, name) \<Rightarrow> Inr (fr\<lparr>Module := pack, Function := name\<rparr>))
              else Inr fr))"

lemma parsePrintedStackEntry_newI:
  assumes "parsePrintedStackEntry lines i = Inr (newI, file, line, fnName)"
  shows "newI = i \<or> newI = i + 1"
  using assms
  by (auto simp: parsePrintedStackEntry_def Let_def split: sum.splits if_splits)

text \<open>
  The loop \<^verbatim>\<open>for i := 0; i < len(lines); i++ { nextI, ... := ...; i = nextI; ... }\<close>: the
  next round starts at \<open>nextI + 1\<close>.
\<close>

function parsePrintedStack_loop :: "string list \<Rightarrow> int \<Rightarrow> frame list \<Rightarrow> panic + frame list" where
  "parsePrintedStack_loop lines i frames =
     (if i < int (length lines) then
        (case parsePrintedStackEntry lines i of
           Inl e \<Rightarrow> Inl e
         | Inr (nextI, file, line, fnName) \<Rightarrow>
             (case composeFrame file line fnName of
                Inl e \<Rightarrow> Inl e
              | Inr fr \<Rightarrow> parsePrintedStack_loop lines (nextI + 1) (frames @ [fr])))
      else Inr frames)"
  by pat_completeness auto
termination
proof (relation "measure (\<lambda>(lines, i, frames). nat (int (length lines) - i))")
  show "wf (measure (\<lambda>(lines, i, frames). nat (int (length lines) - i)))"
    by simp
next
  fix lines :: "string list" and i :: int and frames :: "frame list"
    and x nextI y path z n fnName fr
  assume "i < int (length lines)"
    and "parsePrintedStackEntry lines i = Inr x"
    and "(nextI, y) = x" and "(path, z) = y" and "(n, fnName) = z"
  then have "nextI = i \<or> nextI = i + 1"
    using parsePrintedStackEntry_newI [of lines i nextI path n fnName] by auto
  with \<open>i < int (length lines)\<close>
  show "((lines, nextI + 1, frames @ [fr]), (lines, i, frames))
          \<in> measure (\<lambda>(lines, i, frames). nat (int (length lines) - i))"
    by auto
qed

text \<open>
  The loop \<^verbatim>\<open>for i, j := 0, len(frames)-1; i < j; i, j = i+1, j-1\<close> that swaps
  \<^verbatim>\<open>frames[i]\<close> and \<^verbatim>\<open>frames[j]\<close> in place.
\<close>

function reverse_loop :: "'a list \<Rightarrow> int \<Rightarrow> int \<Rightarrow> panic + 'a list" where
  "reverse_loop frames i j =
     (if i < j then
        (case index frames j of
           Inl e \<Rightarrow> Inl e
         | Inr fj \<Rightarrow>
             (case index frames i of
                Inl e \<Rightarrow> Inl e
              | Inr fi \<Rightarrow> reverse_loop (frames[nat i := fj, nat j := fi]) (i + 1) (j - 1)))
      else Inr frames)"
  by pat_completeness auto
termination
  by (relation "measure (\<lambda>(frames, i, j). nat (j - i))") auto

text \<open>
  In \<^verbatim>\<open>parsePrintedStack\<close>, \<^verbatim>\<open>frames\<close> starts as the \<^verbatim>\<open>nil\<close> slice and is only
  appended to, so it is \<^verbatim>\<open>nil\<close> exactly when it is empty.
\<close>

definition parsePrintedStack :: "string \<Rightarrow> panic + ReportableStackTrace option" where
  "parsePrintedStack st =
     (let lines = Split (TrimSpace st) newline in
      case parsePrintedStack_loop lines 0 [] of
        Inl e \<Rightarrow> Inl e
      | Inr frames \<Rightarrow>
          if frames = [] then Inr None
          else
            (case reverse_loop frames 0 (int (length frames) - 1) of
               Inl e \<Rightarrow> Inl e
             | Inr reversed \<Rightarrow> Inr (Some \<lparr>Frames = reversed\<rparr>)))"







section \<open>The entries of a dump, as the specification describes them\<close>

text \<open>
  The specification's words for the grammar of the text (section 4.3): each logical entry
  is one or two physical lines; the second is present only if the line that follows begins
  with a tab; entries are consumed greedily from left to right. \<open>spec_entries\<close> follows
  these words and not the code; the loop of \<^verbatim>\<open>parsePrintedStack\<close> is compared with it
  below. An entry is its first line and, when present, its second line.
\<close>

fun spec_entries :: "string list \<Rightarrow> (string \<times> string option) list" where
  "spec_entries [] = []"
| "spec_entries [l] = [(l, None)]"
| "spec_entries (l # l' # ls) =
     (if HasPrefix l' [tab] then (l, Some l') # spec_entries ls
      else (l, None) # spec_entries (l' # ls))"

text \<open>
  The frame that the code builds from one entry taken alone: \<^verbatim>\<open>parsePrintedStackEntry\<close>
  on the lines of the entry, then the composition of the frame.
\<close>

definition entry_frame :: "string \<times> string option \<Rightarrow> panic + frame" where
  "entry_frame e =
     (case parsePrintedStackEntry (case snd e of None \<Rightarrow> [fst e] | Some l' \<Rightarrow> [fst e, l']) 0 of
        Inl p \<Rightarrow> Inl p
      | Inr (newI, path, n, fnName) \<Rightarrow> composeFrame path n fnName)"

section \<open>Evaluation\<close>

text \<open>
  The equations of the loops are no simplification rules: each unfolds without end on an
  argument that is not concrete. They are among the equations that evaluate the model on
  a concrete input.
\<close>

declare Split.simps [simp del] TrimLeft.simps [simp del] TrimRight.simps [simp del]
  parsePrintedStack_loop.simps [simp del] reverse_loop.simps [simp del]

lemmas strings_eval = TrimSpace_def TrimLeft.simps TrimRight.simps leadingSpace_def
  trailingSpace_def spaceRunes_def Split.simps HasPrefix_def HasSuffix_def LastIndex_def
  LastIndexByte_def occurs_at_def Replace_def middleDot_def

lemmas strconv_eval = Atoi_def ParseInt_def ParseUint_def intSize_def maxUint64_def

lemmas program_eval = parsePrintedStack_def parsePrintedStack_loop.simps reverse_loop.simps
  parsePrintedStackEntry_def composeFrame_def trimPath_def functionName_def index_def
  slice_from_def slice_to_def Let_def

section \<open>Properties of the string functions\<close>

lemma LastIndexByte_scan_none:
  "(\<And>k. k < n \<Longrightarrow> s ! k \<noteq> c) \<Longrightarrow> LastIndexByte_scan s c n = - 1"
  by (induction n) auto

lemma LastIndexByte_scan_found:
  "k < n \<Longrightarrow> s ! k = c \<Longrightarrow> (\<And>j. k < j \<Longrightarrow> j < n \<Longrightarrow> s ! j \<noteq> c)
     \<Longrightarrow> LastIndexByte_scan s c n = int k"
proof (induction n)
  case 0
  then show ?case by simp
next
  case (Suc n)
  show ?case
  proof (cases "s ! n = c")
    case True
    with Suc.prems have "k = n"
      by (metis less_Suc_eq linorder_neqE_nat not_less_eq)
    with True show ?thesis by simp
  next
    case False
    with Suc.prems have "k < n"
      by (metis less_Suc_eq)
    with Suc False show ?thesis by simp
  qed
qed

lemma LastIndexByte_absent: "c \<notin> set s \<Longrightarrow> LastIndexByte s c = - 1"
  unfolding LastIndexByte_def by (rule LastIndexByte_scan_none) (metis nth_mem)

lemma LastIndexByte_last: "c \<notin> set q \<Longrightarrow> LastIndexByte (p @ c # q) c = int (length p)"
  unfolding LastIndexByte_def
proof (rule LastIndexByte_scan_found)
  fix j
  assume "c \<notin> set q" and "length p < j" and "j < length (p @ c # q)"
  then have "(p @ c # q) ! j = q ! (j - length p - 1)" and "j - length p - 1 < length q"
    by (auto simp: nth_append nth_Cons')
  with \<open>c \<notin> set q\<close> show "(p @ c # q) ! j \<noteq> c"
    by (metis nth_mem)
qed simp_all

lemma LastIndex_scan_cases:
  "(LastIndex_scan s sub n = - 1 \<and> (\<forall>k\<le>n. \<not> occurs_at sub s k)) \<or>
   (\<exists>k\<le>n. LastIndex_scan s sub n = int k \<and> occurs_at sub s k \<and>
      (\<forall>j. k < j \<and> j \<le> n \<longrightarrow> \<not> occurs_at sub s j))"
proof (induction n)
  case 0
  then show ?case by auto
next
  case (Suc n)
  show ?case
  proof (cases "occurs_at sub s (Suc n)")
    case True
    then show ?thesis by auto
  next
    case False
    from Suc show ?thesis
    proof (elim disjE conjE exE)
      assume "LastIndex_scan s sub n = - 1" and "\<forall>k\<le>n. \<not> occurs_at sub s k"
      with False show ?thesis
        by (auto simp: le_Suc_eq)
    next
      fix k
      assume "k \<le> n" and "LastIndex_scan s sub n = int k" and "occurs_at sub s k"
        and "\<forall>j. k < j \<and> j \<le> n \<longrightarrow> \<not> occurs_at sub s j"
      with False have "k \<le> Suc n \<and> LastIndex_scan s sub (Suc n) = int k \<and> occurs_at sub s k \<and>
          (\<forall>j. k < j \<and> j \<le> Suc n \<longrightarrow> \<not> occurs_at sub s j)"
        by (auto simp: le_Suc_eq)
      then show ?thesis by blast
    qed
  qed
qed

lemma occurs_at_bound: "occurs_at sub s k \<Longrightarrow> k \<le> length s - length sub \<and> length sub \<le> length s"
  by (auto simp: occurs_at_def)

lemma LastIndex_cases:
  "(LastIndex s sub = - 1 \<and> (\<forall>k. \<not> occurs_at sub s k)) \<or>
   (\<exists>k. LastIndex s sub = int k \<and> occurs_at sub s k \<and> (\<forall>j. occurs_at sub s j \<longrightarrow> j \<le> k))"
proof (cases "length s < length sub")
  case True
  then show ?thesis
    by (auto simp: LastIndex_def occurs_at_def)
next
  case False
  then have eq: "LastIndex s sub = LastIndex_scan s sub (length s - length sub)"
    by (simp add: LastIndex_def)
  from LastIndex_scan_cases [of s sub "length s - length sub"] show ?thesis
  proof (elim disjE conjE exE)
    assume "LastIndex_scan s sub (length s - length sub) = - 1"
      and "\<forall>k\<le>length s - length sub. \<not> occurs_at sub s k"
    with eq show ?thesis
      using occurs_at_bound by metis
  next
    fix k
    assume k: "LastIndex_scan s sub (length s - length sub) = int k" "occurs_at sub s k"
      and later: "\<forall>j. k < j \<and> j \<le> length s - length sub \<longrightarrow> \<not> occurs_at sub s j"
    have "\<forall>j. occurs_at sub s j \<longrightarrow> j \<le> k"
      using later occurs_at_bound by (metis not_le_imp_less)
    with k eq show ?thesis by auto
  qed
qed

lemma occurs_at_byte: "occurs_at [c] s k \<longleftrightarrow> k < length s \<and> s ! k = c"
proof (cases "k < length s")
  case True
  then have "take 1 (drop k s) = [s ! k]"
    by (simp add: take_Suc_conv_app_nth Cons_nth_drop_Suc [symmetric])
  with True show ?thesis
    by (auto simp: occurs_at_def)
next
  case False
  then show ?thesis by (simp add: occurs_at_def)
qed

lemma LastIndex_byte_absent: "c \<notin> set s \<Longrightarrow> LastIndex s [c] = - 1"
  using LastIndex_cases [of s "[c]"] by (auto simp: occurs_at_byte)

lemma LastIndex_byte_last:
  assumes "c \<notin> set q"
  shows "LastIndex (p @ c # q) [c] = int (length p)"
proof -
  have here: "occurs_at [c] (p @ c # q) (length p)"
    by (simp add: occurs_at_byte)
  have later: "\<not> occurs_at [c] (p @ c # q) j" if "length p < j" for j
  proof
    assume "occurs_at [c] (p @ c # q) j"
    then have "j < length (p @ c # q)" and "(p @ c # q) ! j = c"
      by (simp_all add: occurs_at_byte)
    with that have "q ! (j - length p - 1) = c" and "j - length p - 1 < length q"
      by (auto simp: nth_append nth_Cons')
    with assms show False
      by (metis nth_mem)
  qed
  from LastIndex_cases [of "p @ c # q" "[c]"] show ?thesis
  proof (elim disjE conjE exE)
    assume "\<forall>k. \<not> occurs_at [c] (p @ c # q) k"
    with here show ?thesis by blast
  next
    fix k
    assume k: "LastIndex (p @ c # q) [c] = int k" "occurs_at [c] (p @ c # q) k"
      and "\<forall>j. occurs_at [c] (p @ c # q) j \<longrightarrow> j \<le> k"
    with here have "length p \<le> k" by blast
    moreover have "\<not> length p < k"
      using later k(2) by blast
    ultimately show ?thesis
      using k(1) by simp
  qed
qed

lemma occurs_at_append: "occurs_at sub (p @ sub @ q) (length p)"
  by (simp add: occurs_at_def)

lemma occurs_at_split:
  assumes "occurs_at sub s k"
  shows "s = take k s @ sub @ drop (k + length sub) s" and "length (take k s) = k"
proof -
  from assms have len: "k + length sub \<le> length s" and eq: "take (length sub) (drop k s) = sub"
    by (simp_all add: occurs_at_def)
  have "s = take k s @ drop k s"
    by simp
  also have "drop k s = take (length sub) (drop k s) @ drop (length sub) (drop k s)"
    by (rule append_take_drop_id [symmetric])
  also have "\<dots> = sub @ drop (k + length sub) s"
    by (simp only: eq drop_drop add.commute)
  finally show "s = take k s @ sub @ drop (k + length sub) s" .
  from len show "length (take k s) = k"
    by simp
qed

subsection \<open>\<^verbatim>\<open>trimPath\<close>\<close>

lemma trimPath_no_marker:
  "(\<And>k. \<not> occurs_at ''/src/'' filename k) \<Longrightarrow> trimPath filename = Inr filename"
  using LastIndex_cases [of filename "''/src/''"] by (auto simp: trimPath_def)

lemma trimPath_last_marker:
  assumes "occurs_at ''/src/'' filename k"
    and "\<And>j. occurs_at ''/src/'' filename j \<Longrightarrow> j \<le> k"
  shows "trimPath filename = Inr (drop (k + 5) filename)"
proof -
  from LastIndex_cases [of filename "''/src/''"] assms
  have "LastIndex filename ''/src/'' = int k"
    by (metis le_antisym of_nat_eq_iff)
  moreover from assms(1) have "k + 5 \<le> length filename"
    by (simp add: occurs_at_def)
  ultimately show ?thesis
    by (simp add: trimPath_def slice_from_def nat_add_distrib)
qed

lemma trimPath_total: "\<exists>r. trimPath filename = Inr r"
proof (cases "\<exists>k. occurs_at ''/src/'' filename k")
  case True
  with LastIndex_cases [of filename "''/src/''"]
  obtain k where "occurs_at ''/src/'' filename k"
    and "\<forall>j. occurs_at ''/src/'' filename j \<longrightarrow> j \<le> k"
    by blast
  then show ?thesis
    using trimPath_last_marker by blast
next
  case False
  then show ?thesis
    using trimPath_no_marker by blast
qed

text \<open>
  Claim C7. If the marker \<^verbatim>\<open>/src/\<close> occurs in the path, the path is \<open>p @ ''/src/'' @ q\<close>
  where no instance of the marker starts further right than this one, and \<^verbatim>\<open>trimPath\<close>
  returns \<open>q\<close>, which is shorter than the path (a proper suffix). If the marker does not
  occur, \<^verbatim>\<open>trimPath\<close> returns the path unchanged. The two examples of the specification
  are the last two conjuncts.
\<close>

theorem trimPath_spec:
  "((\<exists>p q. filename = p @ ''/src/'' @ q) \<longrightarrow>
      (\<exists>p q. filename = p @ ''/src/'' @ q \<and>
         (\<forall>p' q'. filename = p' @ ''/src/'' @ q' \<longrightarrow> length p' \<le> length p) \<and>
         trimPath filename = Inr q \<and> length q < length filename)) \<and>
   ((\<forall>p q. filename \<noteq> p @ ''/src/'' @ q) \<longrightarrow> trimPath filename = Inr filename) \<and>
   trimPath ''/home/x/src/pkg/file.go'' = Inr ''pkg/file.go'' \<and>
   trimPath ''/home/x/file.go'' = Inr ''/home/x/file.go''"
proof (intro conjI impI)
  assume "\<exists>p q. filename = p @ ''/src/'' @ q"
  then have "\<exists>k. occurs_at ''/src/'' filename k"
    using occurs_at_append by blast
  with LastIndex_cases [of filename "''/src/''"]
  obtain k where k: "occurs_at ''/src/'' filename k"
    and last: "\<forall>j. occurs_at ''/src/'' filename j \<longrightarrow> j \<le> k"
    by blast
  define p where "p = take k filename"
  define q where "q = drop (k + 5) filename"
  have len5: "length ''/src/'' = 5"
    by simp
  with occurs_at_split [OF k] have split: "filename = p @ ''/src/'' @ q" and lp: "length p = k"
    unfolding p_def q_def by metis+
  have "\<forall>p' q'. filename = p' @ ''/src/'' @ q' \<longrightarrow> length p' \<le> length p"
    using last lp occurs_at_append by metis
  moreover have "trimPath filename = Inr q"
    using trimPath_last_marker [OF k] last by (simp add: q_def)
  moreover have "length q < length filename"
  proof -
    from occurs_at_bound [OF k] len5 have "5 \<le> length filename"
      by metis
    then show ?thesis
      by (simp add: q_def)
  qed
  ultimately show "\<exists>p q. filename = p @ ''/src/'' @ q \<and>
      (\<forall>p' q'. filename = p' @ ''/src/'' @ q' \<longrightarrow> length p' \<le> length p) \<and>
      trimPath filename = Inr q \<and> length q < length filename"
    using split by blast
next
  assume none: "\<forall>p q. filename \<noteq> p @ ''/src/'' @ q"
  have "\<not> occurs_at ''/src/'' filename k" for k
    using none occurs_at_split(1) by blast
  then show "trimPath filename = Inr filename"
    by (rule trimPath_no_marker)
next
  show "trimPath ''/home/x/src/pkg/file.go'' = Inr ''pkg/file.go''"
    by (simp add: strings_eval program_eval)
next
  show "trimPath ''/home/x/file.go'' = Inr ''/home/x/file.go''"
    by (simp add: strings_eval program_eval)
qed

theorem trimPath_spec_witness:
  "(\<exists>p q. ''/go/src/a/src/b.go'' = p @ ''/src/'' @ q \<and>
      (\<forall>p' q'. ''/go/src/a/src/b.go'' = p' @ ''/src/'' @ q' \<longrightarrow> length p' \<le> length p) \<and>
      trimPath ''/go/src/a/src/b.go'' = Inr q \<and> length q < length ''/go/src/a/src/b.go'') \<and>
   (\<forall>p q. ''main.go'' \<noteq> p @ ''/src/'' @ q) \<and> trimPath ''main.go'' = Inr ''main.go''"
proof -
  have "''/go/src/a/src/b.go'' = ''/go'' @ ''/src/'' @ ''a/src/b.go''"
    by simp
  then have marker: "\<exists>p q. ''/go/src/a/src/b.go'' = p @ ''/src/'' @ q"
    by blast
  have none: "\<forall>p q. ''main.go'' \<noteq> p @ ''/src/'' @ q"
  proof (intro allI notI)
    fix p q :: string
    assume "''main.go'' = p @ ''/src/'' @ q"
    then have "CHR ''/'' \<in> set ''main.go''"
      by (metis append_Cons in_set_conv_decomp)
    then show False by simp
  qed
  show ?thesis
    using trimPath_spec [of "''/go/src/a/src/b.go''"] trimPath_spec [of "''main.go''"] marker none
    by blast
qed

subsection \<open>\<^verbatim>\<open>functionName\<close>\<close>

lemma occurs_at_Cons_Suc: "occurs_at sub (x # s) (Suc k) \<longleftrightarrow> occurs_at sub s k"
  by (simp add: occurs_at_def)

lemma occurs_at_middleDot_0:
  "occurs_at middleDot (x # s) 0 \<longleftrightarrow> x = CHR 0xC2 \<and> (\<exists>t. s = CHR 0xB7 # t)"
  by (cases s) (auto simp: occurs_at_def middleDot_def)

lemma HasPrefix_middleDot:
  "HasPrefix (x # s) middleDot \<longleftrightarrow> x = CHR 0xC2 \<and> (\<exists>t. s = CHR 0xB7 # t)"
  by (cases s) (auto simp: HasPrefix_def middleDot_def)

lemma Replace_all_Nil: "Replace_all [] middleDot new = []"
  by (simp add: middleDot_def)

lemma Replace_all_Cons:
  "Replace_all (x # xs) middleDot new =
     (if HasPrefix (x # xs) middleDot then new @ Replace_all (drop 1 xs) middleDot new
      else x # Replace_all xs middleDot new)"
  by (simp add: middleDot_def)

lemma Replace_all_head:
  assumes "Replace_all xs middleDot ''.'' = CHR 0xB7 # r"
  shows "\<exists>t. xs = CHR 0xB7 # t"
proof (cases xs)
  case Nil
  with assms show ?thesis
    by (simp add: Replace_all_Nil)
next
  case (Cons y ys)
  with assms show ?thesis
    by (simp add: Replace_all_Cons split: if_splits)
qed

lemma Replace_all_no_middleDot: "\<not> occurs_at middleDot (Replace_all s middleDot ''.'') k"
proof (induction "length s" arbitrary: s k rule: less_induct)
  case less
  show ?case
  proof (cases s)
    case Nil
    then show ?thesis
      by (simp add: Replace_all_Nil occurs_at_def middleDot_def)
  next
    case (Cons x xs)
    show ?thesis
    proof (cases "HasPrefix (x # xs) middleDot")
      case True
      then obtain t where t: "xs = CHR 0xB7 # t"
        by (auto simp: HasPrefix_middleDot)
      with True Cons have eq: "Replace_all s middleDot ''.'' = CHR ''.'' # Replace_all t middleDot ''.''"
        by (simp add: Replace_all_Cons)
      show ?thesis
      proof (cases k)
        case 0
        with eq show ?thesis
          by (simp add: occurs_at_middleDot_0)
      next
        case (Suc k')
        have "\<not> occurs_at middleDot (Replace_all t middleDot ''.'') k'"
          using less [of t k'] Cons t by simp
        with eq Suc show ?thesis
          by (simp add: occurs_at_Cons_Suc)
      qed
    next
      case False
      with Cons have eq: "Replace_all s middleDot ''.'' = x # Replace_all xs middleDot ''.''"
        by (simp add: Replace_all_Cons)
      show ?thesis
      proof (cases k)
        case 0
        show ?thesis
        proof
          assume "occurs_at middleDot (Replace_all s middleDot ''.'') k"
          with eq 0 obtain r where "x = CHR 0xC2" and "Replace_all xs middleDot ''.'' = CHR 0xB7 # r"
            by (auto simp: occurs_at_middleDot_0)
          with Replace_all_head have "HasPrefix (x # xs) middleDot"
            by (auto simp: HasPrefix_middleDot)
          with False show False ..
        qed
      next
        case (Suc k')
        have "\<not> occurs_at middleDot (Replace_all xs middleDot ''.'') k'"
          using less [of xs k'] Cons by simp
        with eq Suc show ?thesis
          by (simp add: occurs_at_Cons_Suc)
      qed
    qed
  qed
qed

lemma Replace_no_middleDot: "\<not> occurs_at middleDot (Replace s middleDot ''.'') k"
  using Replace_all_no_middleDot by (simp add: Replace_def middleDot_def)

lemma Replace_all_absent:
  "(\<And>k. \<not> occurs_at middleDot s k) \<Longrightarrow> Replace_all s middleDot new = s"
proof (induction s)
  case Nil
  show ?case by (simp add: Replace_all_Nil)
next
  case (Cons x xs)
  from Cons.prems [of 0] have "\<not> HasPrefix (x # xs) middleDot"
    by (simp add: HasPrefix_middleDot occurs_at_middleDot_0)
  moreover have "Replace_all xs middleDot new = xs"
  proof (rule Cons.IH)
    fix k
    from Cons.prems [of "Suc k"] show "\<not> occurs_at middleDot xs k"
      by (simp add: occurs_at_Cons_Suc)
  qed
  ultimately show ?case
    by (simp add: Replace_all_Cons)
qed

lemma functionName_no_dot:
  "CHR ''.'' \<notin> set fnName \<Longrightarrow> functionName fnName = Inr ('''', Replace fnName middleDot ''.'')"
  by (simp add: functionName_def LastIndex_byte_absent)

lemma functionName_last_dot:
  assumes "CHR ''.'' \<notin> set q"
  shows "functionName (p @ ''.'' @ q) = Inr (p, Replace q middleDot ''.'')"
proof -
  have "LastIndex (p @ ''.'' @ q) ''.'' = int (length p)"
    using LastIndex_byte_last [OF assms, of p] by simp
  then show ?thesis
    by (simp add: functionName_def slice_to_def slice_from_def nat_add_distrib)
qed

lemma functionName_cases:
  "(CHR ''.'' \<notin> set fnName \<and> functionName fnName = Inr ('''', Replace fnName middleDot ''.'')) \<or>
   (\<exists>p q. fnName = p @ ''.'' @ q \<and> CHR ''.'' \<notin> set q \<and>
      functionName fnName = Inr (p, Replace q middleDot ''.''))"
proof (cases "CHR ''.'' \<in> set fnName")
  case True
  then obtain p q where "fnName = p @ CHR ''.'' # q" and "CHR ''.'' \<notin> set q"
    by (meson split_list_last)
  then show ?thesis
    using functionName_last_dot [of q p] by auto
next
  case False
  then show ?thesis
    by (simp add: functionName_no_dot)
qed

lemma functionName_total: "\<exists>r. functionName fnName = Inr r"
  using functionName_cases [of fnName] by auto

text \<open>
  Claim C8. \<^verbatim>\<open>functionName\<close> splits at the last \<^verbatim>\<open>.\<close>: for \<open>p @ ''.'' @ q\<close> with no
  \<^verbatim>\<open>.\<close> in \<open>q\<close>, the package is \<open>p\<close> and the name is \<open>q\<close> after the replacement of the
  middle dots; without a \<^verbatim>\<open>.\<close> the package is empty and the name is the whole input after
  the replacement. The replacement leaves no middle dot in the name, and changes nothing
  when there is none. The two examples of the specification are the last two conjuncts.
\<close>

theorem functionName_spec:
  "(CHR ''.'' \<notin> set fnName \<longrightarrow>
      functionName fnName = Inr ('''', Replace fnName middleDot ''.'')) \<and>
   (\<forall>p q. fnName = p @ ''.'' @ q \<and> CHR ''.'' \<notin> set q \<longrightarrow>
      functionName fnName = Inr (p, Replace q middleDot ''.'')) \<and>
   (\<exists>pack name. functionName fnName = Inr (pack, name) \<and> (\<forall>k. \<not> occurs_at middleDot name k)) \<and>
   (\<forall>s. (\<forall>k. \<not> occurs_at middleDot s k) \<longrightarrow> Replace s middleDot ''.'' = s) \<and>
   functionName ''pkg/sub.Func'' = Inr (''pkg/sub'', ''Func'') \<and>
   functionName ''Func'' = Inr ('''', ''Func'')"
proof (intro conjI allI impI)
  assume "CHR ''.'' \<notin> set fnName"
  then show "functionName fnName = Inr ('''', Replace fnName middleDot ''.'')"
    by (rule functionName_no_dot)
next
  fix p q
  assume "fnName = p @ ''.'' @ q \<and> CHR ''.'' \<notin> set q"
  then show "functionName fnName = Inr (p, Replace q middleDot ''.'')"
    using functionName_last_dot by blast
next
  show "\<exists>pack name. functionName fnName = Inr (pack, name) \<and> (\<forall>k. \<not> occurs_at middleDot name k)"
    using functionName_cases [of fnName] Replace_no_middleDot by blast
next
  fix s
  assume "\<forall>k. \<not> occurs_at middleDot s k"
  then show "Replace s middleDot ''.'' = s"
    using Replace_all_absent by (simp add: Replace_def)
next
  show "functionName ''pkg/sub.Func'' = Inr (''pkg/sub'', ''Func'')"
    by (simp add: strings_eval program_eval)
next
  show "functionName ''Func'' = Inr ('''', ''Func'')"
    by (simp add: strings_eval program_eval)
qed

theorem functionName_spec_witness:
  "functionName (''main.main'' @ middleDot @ ''func1'') = Inr (''main'', ''main.func1'') \<and>
   functionName ''main'' = Inr ('''', ''main'') \<and>
   Replace ''a.b'' middleDot ''.'' = ''a.b''"
proof -
  let ?q = "''main'' @ middleDot @ ''func1''"
  have split: "''main.main'' @ middleDot @ ''func1'' = ''main'' @ ''.'' @ ?q \<and> CHR ''.'' \<notin> set ?q"
    by (simp add: middleDot_def)
  have repl: "Replace ?q middleDot ''.'' = ''main.func1''"
    by (simp add: strings_eval)
  have nodot: "CHR ''.'' \<notin> set ''main''"
    by simp
  have same: "Replace ''main'' middleDot ''.'' = ''main''"
    by (simp add: strings_eval)
  have none: "\<forall>k. \<not> occurs_at middleDot ''a.b'' k"
  proof (intro allI notI)
    fix k
    assume "occurs_at middleDot ''a.b'' k"
    from occurs_at_split(1) [OF this] have "CHR 0xC2 \<in> set ''a.b''"
      by (metis append_Cons in_set_conv_decomp middleDot_def)
    then show False by simp
  qed
  from functionName_spec [of "''main.main'' @ middleDot @ ''func1''"] split repl
  have "functionName (''main.main'' @ middleDot @ ''func1'') = Inr (''main'', ''main.func1'')"
    by metis
  moreover from functionName_spec [of "''main''"] nodot same
  have "functionName ''main'' = Inr ('''', ''main'')"
    by metis
  moreover from functionName_spec [of "''main''"] none
  have "Replace ''a.b'' middleDot ''.'' = ''a.b''"
    by blast
  ultimately show ?thesis
    by blast
qed

subsection \<open>\<^verbatim>\<open>Atoi\<close>\<close>




lemma ParseInt_syntax: "snd (ParseInt s) = Some ErrSyntax \<Longrightarrow> fst (ParseInt s) = 0"
  by (auto simp: ParseInt_def Let_def split: if_splits prod.splits)

lemma ParseInt_range:
  "snd (ParseInt s) = Some ErrRange \<Longrightarrow>
     fst (ParseInt s) = (if HasPrefix s ''-'' then - (2 ^ 63) else 2 ^ 63 - 1)"
  by (cases s) (auto simp: ParseInt_def Let_def intSize_def HasPrefix_def split: if_splits prod.splits)


lemma Atoi_syntax: "snd (Atoi s) = Some ErrSyntax \<Longrightarrow> fst (Atoi s) = 0"
  using ParseInt_syntax [of s]
  by (auto simp: Atoi_def Let_def split: if_splits option.splits)

lemma Atoi_range:
  "snd (Atoi s) = Some ErrRange \<Longrightarrow>
     fst (Atoi s) = (if HasPrefix s ''-'' then - (2 ^ 63) else 2 ^ 63 - 1)"
  using ParseInt_range [of s]
  by (auto simp: Atoi_def Let_def split: if_splits option.splits)


subsection \<open>\<^verbatim>\<open>parsePrintedStackEntry\<close>\<close>

lemma parsePrintedStackEntry_one_line:
  assumes "0 \<le> i" and "i < int (length lines)"
    and "i < int (length lines) - 1 \<Longrightarrow> \<not> HasPrefix (lines ! nat (i + 1)) [tab]"
  shows "parsePrintedStackEntry lines i = Inr (i, '''', 0, lines ! nat i)"
  using assms by (simp add: parsePrintedStackEntry_def index_def)

lemma parsePrintedStackEntry_no_colon:
  assumes "0 \<le> i" and "i < int (length lines) - 1"
    and "HasPrefix (lines ! nat (i + 1)) [tab]"
    and "CHR '':'' \<notin> set (TrimSpace (lines ! nat (i + 1)))"
  shows "parsePrintedStackEntry lines i =
           Inr (i + 1, TrimSpace (lines ! nat (i + 1)), 0, lines ! nat i)"
  using assms by (simp add: parsePrintedStackEntry_def index_def LastIndexByte_absent)

lemma parsePrintedStackEntry_colon:
  assumes "0 \<le> i" and "i < int (length lines) - 1"
    and "HasPrefix (lines ! nat (i + 1)) [tab]"
    and "TrimSpace (lines ! nat (i + 1)) = p @ '':'' @ q" and "CHR '':'' \<notin> set q"
  shows "parsePrintedStackEntry lines i = Inr (i + 1, p, fst (Atoi q), lines ! nat i)"
proof -
  have "LastIndexByte (p @ '':'' @ q) CHR '':'' = int (length p)"
    using LastIndexByte_last [OF assms(5), of p] by simp
  with assms(1-4) show ?thesis
    by (simp add: parsePrintedStackEntry_def index_def slice_to_def slice_from_def nat_add_distrib)
qed

lemma parsePrintedStackEntry_two_lines:
  assumes "HasPrefix l' [tab]"
  shows "\<exists>path n. \<forall>lines i. 0 \<le> i \<and> i < int (length lines) - 1 \<and> lines ! nat (i + 1) = l' \<longrightarrow>
           parsePrintedStackEntry lines i = Inr (i + 1, path, n, lines ! nat i)"
proof (cases "CHR '':'' \<in> set (TrimSpace l')")
  case True
  then obtain p q where "TrimSpace l' = p @ '':'' @ q" and "CHR '':'' \<notin> set q"
    by (metis append_Cons append_Nil split_list_last)
  with assms have "\<forall>lines i. 0 \<le> i \<and> i < int (length lines) - 1 \<and> lines ! nat (i + 1) = l' \<longrightarrow>
      parsePrintedStackEntry lines i = Inr (i + 1, p, fst (Atoi q), lines ! nat i)"
    using parsePrintedStackEntry_colon by blast
  then show ?thesis by blast
next
  case False
  with assms have "\<forall>lines i. 0 \<le> i \<and> i < int (length lines) - 1 \<and> lines ! nat (i + 1) = l' \<longrightarrow>
      parsePrintedStackEntry lines i = Inr (i + 1, TrimSpace l', 0, lines ! nat i)"
    using parsePrintedStackEntry_no_colon by blast
  then show ?thesis by blast
qed

lemma parsePrintedStackEntry_in_bounds:
  assumes "0 \<le> i" and "i < int (length lines)"
  shows "\<exists>newI path n. parsePrintedStackEntry lines i = Inr (newI, path, n, lines ! nat i) \<and>
           i \<le> newI \<and> newI \<le> int (length lines) - 1"
proof (cases "i < int (length lines) - 1 \<and> HasPrefix (lines ! nat (i + 1)) [tab]")
  case True
  with parsePrintedStackEntry_two_lines [of "lines ! nat (i + 1)"] assms(1)
  obtain path n where "parsePrintedStackEntry lines i = Inr (i + 1, path, n, lines ! nat i)"
    by blast
  with True show ?thesis by auto
next
  case False
  with assms have "parsePrintedStackEntry lines i = Inr (i, '''', 0, lines ! nat i)"
    using parsePrintedStackEntry_one_line by blast
  with assms show ?thesis by auto
qed

text \<open>
  Claim C5 says that the line number is 0 whenever the text after the colon fails to
  parse. That holds for a syntax error only: on a range error \<^verbatim>\<open>Atoi\<close> returns the
  nearest bound of \<^verbatim>\<open>int\<close> with the error, and the code keeps the value. Here the text
  after the colon is \<open>2 ^ 63\<close>, \<^verbatim>\<open>Atoi\<close> reports a range error, and the line number is
  \<open>2 ^ 63 - 1\<close>.
\<close>

theorem parsePrintedStackEntry_range_error_counterexample:
  "snd (Atoi ''9223372036854775808'') = Some ErrRange \<and>
   parsePrintedStackEntry [''main.f'', tab # ''/a/b.go:9223372036854775808''] 0 =
     Inr (1, ''/a/b.go'', 9223372036854775807, ''main.f'')"
  by (simp add: strings_eval strconv_eval program_eval)

text \<open>
  Claim C5, amended. For an entry whose following line begins with a tab: without a
  colon in the trimmed line, the whole trimmed line is the file path and the line number
  is 0; with a colon, when \<^verbatim>\<open>Atoi\<close> reports a syntax error on the text after the last
  colon the line number is 0, and when it reports a range error the line number is
  \<open>- 2 ^ 63\<close> for a text that starts with a minus sign and \<open>2 ^ 63 - 1\<close> otherwise. In
  every case the entry is returned and nothing panics.
\<close>

theorem parsePrintedStackEntry_line_number:
  assumes "0 \<le> i" and "i < int (length lines) - 1"
    and "HasPrefix (lines ! nat (i + 1)) [tab]"
  shows
    "(CHR '':'' \<notin> set (TrimSpace (lines ! nat (i + 1))) \<longrightarrow>
        parsePrintedStackEntry lines i =
          Inr (i + 1, TrimSpace (lines ! nat (i + 1)), 0, lines ! nat i)) \<and>
     (\<forall>p q. TrimSpace (lines ! nat (i + 1)) = p @ '':'' @ q \<and> CHR '':'' \<notin> set q \<and>
          snd (Atoi q) = Some ErrSyntax \<longrightarrow>
        parsePrintedStackEntry lines i = Inr (i + 1, p, 0, lines ! nat i)) \<and>
     (\<forall>p q. TrimSpace (lines ! nat (i + 1)) = p @ '':'' @ q \<and> CHR '':'' \<notin> set q \<and>
          snd (Atoi q) = Some ErrRange \<longrightarrow>
        parsePrintedStackEntry lines i =
          Inr (i + 1, p, if HasPrefix q ''-'' then - (2 ^ 63) else 2 ^ 63 - 1, lines ! nat i)) \<and>
     (\<exists>r. parsePrintedStackEntry lines i = Inr r)"
proof (intro conjI allI impI)
  assume "CHR '':'' \<notin> set (TrimSpace (lines ! nat (i + 1)))"
  with assms show "parsePrintedStackEntry lines i =
      Inr (i + 1, TrimSpace (lines ! nat (i + 1)), 0, lines ! nat i)"
    by (rule parsePrintedStackEntry_no_colon)
next
  fix p q
  assume h: "TrimSpace (lines ! nat (i + 1)) = p @ '':'' @ q \<and> CHR '':'' \<notin> set q \<and>
    snd (Atoi q) = Some ErrSyntax"
  then have "parsePrintedStackEntry lines i = Inr (i + 1, p, fst (Atoi q), lines ! nat i)"
    using assms parsePrintedStackEntry_colon by blast
  with h show "parsePrintedStackEntry lines i = Inr (i + 1, p, 0, lines ! nat i)"
    by (simp add: Atoi_syntax)
next
  fix p q
  assume h: "TrimSpace (lines ! nat (i + 1)) = p @ '':'' @ q \<and> CHR '':'' \<notin> set q \<and>
    snd (Atoi q) = Some ErrRange"
  then have "parsePrintedStackEntry lines i = Inr (i + 1, p, fst (Atoi q), lines ! nat i)"
    using assms parsePrintedStackEntry_colon by blast
  with h show "parsePrintedStackEntry lines i =
      Inr (i + 1, p, if HasPrefix q ''-'' then - (2 ^ 63) else 2 ^ 63 - 1, lines ! nat i)"
    using Atoi_range [of q] by simp
next
  from assms(1,2) have "i < int (length lines)"
    by simp
  with assms(1) show "\<exists>r. parsePrintedStackEntry lines i = Inr r"
    using parsePrintedStackEntry_in_bounds by blast
qed

theorem parsePrintedStackEntry_line_number_witness:
  "parsePrintedStackEntry [''main.f'', tab # ''/a/b.go''] 0 = Inr (1, ''/a/b.go'', 0, ''main.f'') \<and>
   parsePrintedStackEntry [''main.f'', tab # ''/a/b.go:12a''] 0 = Inr (1, ''/a/b.go'', 0, ''main.f'') \<and>
   parsePrintedStackEntry [''main.f'', tab # ''/a/b.go:-99999999999999999999''] 0 =
     Inr (1, ''/a/b.go'', - (2 ^ 63), ''main.f'')"
proof -
  let ?L1 = "[''main.f'', tab # ''/a/b.go'']"
  let ?L2 = "[''main.f'', tab # ''/a/b.go:12a'']"
  let ?L3 = "[''main.f'', tab # ''/a/b.go:-99999999999999999999'']"
  have t1: "TrimSpace (?L1 ! nat (0 + 1)) = ''/a/b.go''"
    by (simp add: strings_eval)
  have t2: "TrimSpace (?L2 ! nat (0 + 1)) = ''/a/b.go'' @ '':'' @ ''12a''"
    by (simp add: strings_eval)
  have t3: "TrimSpace (?L3 ! nat (0 + 1)) = ''/a/b.go'' @ '':'' @ ''-99999999999999999999''"
    by (simp add: strings_eval)
  have e2: "CHR '':'' \<notin> set ''12a'' \<and> snd (Atoi ''12a'') = Some ErrSyntax"
    by (simp add: strconv_eval Let_def)
  have e3: "CHR '':'' \<notin> set ''-99999999999999999999'' \<and>
      snd (Atoi ''-99999999999999999999'') = Some ErrRange"
    by (simp add: strconv_eval Let_def)
  have p1: "(0::int) \<le> 0" "0 < int (length ?L1) - 1" "HasPrefix (?L1 ! nat (0 + 1)) [tab]"
    by (simp_all add: HasPrefix_def)
  have p2: "(0::int) \<le> 0" "0 < int (length ?L2) - 1" "HasPrefix (?L2 ! nat (0 + 1)) [tab]"
    by (simp_all add: HasPrefix_def)
  have p3: "(0::int) \<le> 0" "0 < int (length ?L3) - 1" "HasPrefix (?L3 ! nat (0 + 1)) [tab]"
    by (simp_all add: HasPrefix_def)
  have "CHR '':'' \<notin> set (TrimSpace (?L1 ! nat (0 + 1)))"
    unfolding t1 by simp
  with parsePrintedStackEntry_line_number [OF p1]
  have "parsePrintedStackEntry ?L1 0 = Inr (0 + 1, TrimSpace (?L1 ! nat (0 + 1)), 0, ?L1 ! nat 0)"
    by blast
  then have r1: "parsePrintedStackEntry ?L1 0 = Inr (1, ''/a/b.go'', 0, ''main.f'')"
    unfolding t1 by simp
  from parsePrintedStackEntry_line_number [OF p2] t2 e2
  have "parsePrintedStackEntry ?L2 0 = Inr (0 + 1, ''/a/b.go'', 0, ?L2 ! nat 0)"
    by blast
  then have r2: "parsePrintedStackEntry ?L2 0 = Inr (1, ''/a/b.go'', 0, ''main.f'')"
    by simp
  from parsePrintedStackEntry_line_number [OF p3] t3 e3
  have "parsePrintedStackEntry ?L3 0 =
      Inr (0 + 1, ''/a/b.go'',
           if HasPrefix ''-99999999999999999999'' ''-'' then - (2 ^ 63) else 2 ^ 63 - 1,
           ?L3 ! nat 0)"
    by blast
  then have r3: "parsePrintedStackEntry ?L3 0 = Inr (1, ''/a/b.go'', - (2 ^ 63), ''main.f'')"
    by (simp add: HasPrefix_def)
  from r1 r2 r3 show ?thesis
    by blast
qed

text \<open>
  Claim C10. The trimmed second line is cut at its last colon: when it is
  \<open>p @ '':'' @ q\<close> with no colon in \<open>q\<close>, the file path is \<open>p\<close>, with every colon it
  contains, and the line number is what \<^verbatim>\<open>Atoi\<close> returns for \<open>q\<close>.
\<close>

theorem parsePrintedStackEntry_last_colon:
  assumes "0 \<le> i" and "i < int (length lines) - 1"
    and "HasPrefix (lines ! nat (i + 1)) [tab]"
    and "TrimSpace (lines ! nat (i + 1)) = p @ '':'' @ q" and "CHR '':'' \<notin> set q"
  shows "parsePrintedStackEntry lines i = Inr (i + 1, p, fst (Atoi q), lines ! nat i)"
  using assms by (rule parsePrintedStackEntry_colon)

theorem parsePrintedStackEntry_last_colon_witness:
  "parsePrintedStackEntry [''main.f'', tab # ''C:/a:b/c.go:12''] 0 =
     Inr (1, ''C:/a:b/c.go'', 12, ''main.f'')"
proof -
  have trim: "TrimSpace (tab # ''C:/a:b/c.go:12'') = ''C:/a:b/c.go'' @ '':'' @ ''12''"
    by (simp add: strings_eval)
  have num: "fst (Atoi ''12'') = 12"
    by (simp add: strconv_eval Let_def)
  show ?thesis
    using parsePrintedStackEntry_last_colon [of 0 "[''main.f'', tab # ''C:/a:b/c.go:12'']"
        "''C:/a:b/c.go''" "''12''"] trim num
    by (simp add: HasPrefix_def)
qed

subsection \<open>The reversal loop\<close>

lemma rev_short: "length m \<le> 1 \<Longrightarrow> rev m = m"
  by (cases m) auto

lemma two_ends:
  assumes "\<not> length m \<le> 1"
  shows "\<exists>x m' y. m = x # m' @ [y]"
proof (cases m)
  case Nil
  with assms show ?thesis by simp
next
  case (Cons x t)
  with assms have "t \<noteq> []" by auto
  then have "t = butlast t @ [last t]" by simp
  with Cons show ?thesis by metis
qed

lemma reverse_loop_middle:
  "reverse_loop (a @ m @ b) (int (length a)) (int (length a) + int (length m) - 1) =
     Inr (a @ rev m @ b)"
proof (induction "length m" arbitrary: a m b rule: less_induct)
  case less
  show ?case
  proof (cases "length m \<le> 1")
    case True
    then show ?thesis
      by (subst reverse_loop.simps) (simp add: rev_short)
  next
    case False
    then obtain x m' y where m: "m = x # m' @ [y]"
      using two_ends by blast
    let ?xs = "a @ m @ b"
    let ?i = "int (length a)"
    let ?j = "int (length a) + int (length m) - 1"
    have j: "nat ?j = length a + Suc (length m')" and i: "nat ?i = length a"
      by (simp_all add: m)
    have lt: "?i < ?j"
      by (simp add: m)
    have at_j: "index ?xs ?j = Inr y"
      unfolding index_def j by (simp add: m nth_append)
    have at_i: "index ?xs ?i = Inr x"
      unfolding index_def i by (simp add: m)
    have swap: "?xs[nat ?i := y, nat ?j := x] = (a @ [y]) @ m' @ ([x] @ b)"
      unfolding i j by (simp add: m list_update_append)
    have "reverse_loop ?xs ?i ?j = reverse_loop ((a @ [y]) @ m' @ ([x] @ b)) (?i + 1) (?j - 1)"
      by (subst reverse_loop.simps) (simp only: lt at_j at_i swap if_True sum.case)
    also have "?i + 1 = int (length (a @ [y]))"
      by simp
    also have "?j - 1 = int (length (a @ [y])) + int (length m') - 1"
      by (simp add: m)
    also have "reverse_loop ((a @ [y]) @ m' @ ([x] @ b)) (int (length (a @ [y])))
        (int (length (a @ [y])) + int (length m') - 1) = Inr ((a @ [y]) @ rev m' @ ([x] @ b))"
      by (rule less) (simp add: m)
    finally show ?thesis
      by (simp add: m)
  qed
qed

lemma reverse_loop_rev: "reverse_loop frames 0 (int (length frames) - 1) = Inr (rev frames)"
  using reverse_loop_middle [of "[]" frames "[]"] by simp

subsection \<open>The scanning loop\<close>

lemma composeFrame_total:
  "\<exists>fr. composeFrame path n fnName = Inr fr \<and> AbsolutePath fr = path \<and> Lineno fr = n \<and>
      InApp fr = False"
proof -
  obtain trimmed where t: "trimPath path = Inr trimmed"
    using trimPath_total by blast
  obtain pack name where f: "functionName fnName = Inr (pack, name)"
    using functionName_total [of fnName] by auto
  show ?thesis
    by (cases "fnName = ''unknown''") (simp_all add: composeFrame_def t f)
qed

text \<open>Outside the bounds of the slice the first index expression panics.\<close>

lemma parsePrintedStackEntry_out_of_range:
  "i < 0 \<or> int (length lines) \<le> i \<Longrightarrow> parsePrintedStackEntry lines i = Inl IndexOutOfRange"
  by (auto simp: parsePrintedStackEntry_def index_def)

lemma spec_entries_one_line:
  "(rest \<noteq> [] \<Longrightarrow> \<not> HasPrefix (hd rest) [tab]) \<Longrightarrow>
     spec_entries (l # rest) = (l, None) # spec_entries rest"
  by (cases rest) auto

lemma entry_frame_one_line: "entry_frame (l, None) = composeFrame '''' 0 l"
  by (simp add: entry_frame_def parsePrintedStackEntry_def index_def)

lemma loop_refines:
  assumes "0 \<le> i"
  shows "\<exists>fs. parsePrintedStack_loop lines i frames = Inr (frames @ fs) \<and>
           map Inr fs = map entry_frame (spec_entries (drop (nat i) lines))"
  using assms
proof (induction "nat (int (length lines) - i)" arbitrary: i frames rule: less_induct)
  case less
  show ?case
  proof (cases "i < int (length lines)")
    case False
    then have "parsePrintedStack_loop lines i frames = Inr frames"
      by (subst parsePrintedStack_loop.simps) simp
    moreover from False less.prems have "drop (nat i) lines = []"
      by simp
    ultimately show ?thesis
      by simp
  next
    case True
    let ?l = "lines ! nat i"
    from True less.prems have here: "drop (nat i) lines = ?l # drop (nat (i + 1)) lines"
      by (simp add: Cons_nth_drop_Suc nat_add_distrib)
    show ?thesis
    proof (cases "i < int (length lines) - 1 \<and> HasPrefix (lines ! nat (i + 1)) [tab]")
      case False
      with True less.prems have e: "parsePrintedStackEntry lines i = Inr (i, '''', 0, ?l)"
        using parsePrintedStackEntry_one_line by blast
      obtain fr where fr: "composeFrame '''' 0 ?l = Inr fr"
        using composeFrame_total by blast
      from less.hyps [of "i + 1" "frames @ [fr]"] True less.prems
      obtain fs where fs: "parsePrintedStack_loop lines (i + 1) (frames @ [fr]) = Inr ((frames @ [fr]) @ fs)"
        and m: "map Inr fs = map entry_frame (spec_entries (drop (nat (i + 1)) lines))"
        by auto
      have "parsePrintedStack_loop lines i frames = Inr (frames @ fr # fs)"
        by (subst parsePrintedStack_loop.simps) (simp add: True e fr fs)
      moreover have "spec_entries (drop (nat i) lines) =
          (?l, None) # spec_entries (drop (nat (i + 1)) lines)"
        unfolding here
      proof (rule spec_entries_one_line)
        assume "drop (nat (i + 1)) lines \<noteq> []"
        then have "nat (i + 1) < length lines"
          by simp
        then have "hd (drop (nat (i + 1)) lines) = lines ! nat (i + 1)" and "i < int (length lines) - 1"
          by (simp_all add: hd_drop_conv_nth)
        with False show "\<not> HasPrefix (hd (drop (nat (i + 1)) lines)) [tab]"
          by simp
      qed
      ultimately show ?thesis
        using m by (simp add: entry_frame_one_line fr)
    next
      case two: True
      let ?l' = "lines ! nat (i + 1)"
      from two parsePrintedStackEntry_two_lines [of ?l']
      obtain path n where pn: "\<forall>lines i. 0 \<le> i \<and> i < int (length lines) - 1 \<and>
          lines ! nat (i + 1) = ?l' \<longrightarrow>
          parsePrintedStackEntry lines i = Inr (i + 1, path, n, lines ! nat i)"
        by blast
      from pn two less.prems have e: "parsePrintedStackEntry lines i = Inr (i + 1, path, n, ?l)"
        by blast
      have "(0::int) \<le> 0 \<and> 0 < int (length [?l, ?l']) - 1 \<and> [?l, ?l'] ! nat (0 + 1) = ?l'"
        by simp
      with pn have "parsePrintedStackEntry [?l, ?l'] 0 = Inr (0 + 1, path, n, [?l, ?l'] ! nat 0)"
        by blast
      then have e': "parsePrintedStackEntry [?l, ?l'] 0 = Inr (1, path, n, ?l)"
        by simp
      obtain fr where fr: "composeFrame path n ?l = Inr fr"
        using composeFrame_total by blast
      from e' fr have ef: "entry_frame (?l, Some ?l') = Inr fr"
        by (simp add: entry_frame_def)
      from less.hyps [of "i + 1 + 1" "frames @ [fr]"] True less.prems
      obtain fs where fs: "parsePrintedStack_loop lines (i + 1 + 1) (frames @ [fr]) =
          Inr ((frames @ [fr]) @ fs)"
        and m: "map Inr fs = map entry_frame (spec_entries (drop (nat (i + 1 + 1)) lines))"
        by auto
      have "parsePrintedStack_loop lines i frames =
          parsePrintedStack_loop lines (i + 1 + 1) (frames @ [fr])"
        by (subst parsePrintedStack_loop.simps) (simp only: True e fr if_True sum.case prod.case)
      with fs have "parsePrintedStack_loop lines i frames = Inr (frames @ fr # fs)"
        by simp
      moreover have "drop (nat (i + 1)) lines = ?l' # drop (nat (i + 1 + 1)) lines"
      proof -
        from two less.prems have "nat (i + 1) < length lines"
          by linarith
        then have "drop (nat (i + 1)) lines = ?l' # drop (Suc (nat (i + 1))) lines"
          by (rule Cons_nth_drop_Suc [symmetric])
        moreover from less.prems have "Suc (nat (i + 1)) = nat (i + 1 + 1)"
          by simp
        ultimately show ?thesis
          by simp
      qed
      with here two have "spec_entries (drop (nat i) lines) =
          (?l, Some ?l') # spec_entries (drop (nat (i + 1 + 1)) lines)"
        by simp
      ultimately show ?thesis
        using m by (simp add: ef)
    qed
  qed
qed

lemma Split_nonempty: "Split s sep \<noteq> []"
  by (subst Split.simps) (simp split: list.splits)

lemma spec_entries_nonempty: "lines \<noteq> [] \<Longrightarrow> spec_entries lines \<noteq> []"
  by (induction lines rule: spec_entries.induct) auto

lemma parsePrintedStack_result:
  "\<exists>fs. parsePrintedStack_loop (Split (TrimSpace st) newline) 0 [] = Inr fs \<and> fs \<noteq> [] \<and>
      map Inr fs = map entry_frame (spec_entries (Split (TrimSpace st) newline)) \<and>
      parsePrintedStack st = Inr (Some \<lparr>Frames = rev fs\<rparr>)"
proof -
  let ?lines = "Split (TrimSpace st) newline"
  from loop_refines [of 0 ?lines "[]"]
  obtain fs where fs: "parsePrintedStack_loop ?lines 0 [] = Inr fs"
    and m: "map Inr fs = map entry_frame (spec_entries ?lines)"
    by auto
  have "spec_entries ?lines \<noteq> []"
    using Split_nonempty spec_entries_nonempty by blast
  with m have "fs \<noteq> []"
    by auto
  with fs have "parsePrintedStack st = Inr (Some \<lparr>Frames = rev fs\<rparr>)"
    by (simp add: parsePrintedStack_def reverse_loop_rev)
  with fs m \<open>fs \<noteq> []\<close> show ?thesis
    by blast
qed

section \<open>The empty input\<close>

text \<open>
  Claim C1 says that an empty or blank input gives no trace. On the empty string the
  code does not: \<^verbatim>\<open>strings.Split("", "\n")\<close> is the one-element slice \<^verbatim>\<open>[""]\<close>, so
  the loop composes one frame from the empty line and the test \<^verbatim>\<open>frames == nil\<close> fails.
  The result is a trace of one frame whose fields are all empty; the same holds for an
  input of white space only, which \<^verbatim>\<open>TrimSpace\<close> makes empty. No input at all makes
  \<^verbatim>\<open>parsePrintedStack\<close> return \<^verbatim>\<open>nil\<close>.
\<close>

theorem parsePrintedStack_empty_input:
  "parsePrintedStack '''' =
     Inr (Some \<lparr>Frames = [\<lparr>AbsolutePath = '''', Filename = '''', Lineno = 0, InApp = False,
                              Module = '''', Function = ''''\<rparr>]\<rparr>) \<and>
   parsePrintedStack [newline, CHR '' '', tab, newline] =
     Inr (Some \<lparr>Frames = [\<lparr>AbsolutePath = '''', Filename = '''', Lineno = 0, InApp = False,
                              Module = '''', Function = ''''\<rparr>]\<rparr>) \<and>
   (\<forall>st. parsePrintedStack st \<noteq> Inr None)"
proof (intro conjI allI)
  show "parsePrintedStack '''' =
      Inr (Some \<lparr>Frames = [\<lparr>AbsolutePath = '''', Filename = '''', Lineno = 0, InApp = False,
                               Module = '''', Function = ''''\<rparr>]\<rparr>)"
    by (simp add: strings_eval program_eval)
next
  show "parsePrintedStack [newline, CHR '' '', tab, newline] =
      Inr (Some \<lparr>Frames = [\<lparr>AbsolutePath = '''', Filename = '''', Lineno = 0, InApp = False,
                               Module = '''', Function = ''''\<rparr>]\<rparr>)"
    by (simp add: strings_eval program_eval)
next
  fix st
  show "parsePrintedStack st \<noteq> Inr None"
    using parsePrintedStack_result [of st] by auto
qed

section \<open>The order of the frames\<close>

text \<open>
  Claim C4. When the text has \<open>n \<ge> 1\<close> entries, the loop collects one frame for each,
  in the order of the text; the returned trace has exactly \<open>n\<close> frames, and frame \<open>i\<close>
  of the trace is the collected frame \<open>n - 1 - i\<close>, which is the frame built from entry
  \<open>n - 1 - i\<close> of the text.
\<close>

theorem parsePrintedStack_reverses_entries:
  assumes "1 \<le> length (spec_entries (Split (TrimSpace st) newline))"
  shows "\<exists>collected tr.
           parsePrintedStack_loop (Split (TrimSpace st) newline) 0 [] = Inr collected \<and>
           map Inr collected = map entry_frame (spec_entries (Split (TrimSpace st) newline)) \<and>
           parsePrintedStack st = Inr (Some tr) \<and>
           length (Frames tr) = length (spec_entries (Split (TrimSpace st) newline)) \<and>
           (\<forall>i<length (Frames tr). Frames tr ! i = collected ! (length collected - 1 - i)) \<and>
           (\<forall>i<length (Frames tr).
              Inr (Frames tr ! i) =
                entry_frame (spec_entries (Split (TrimSpace st) newline) ! (length (Frames tr) - 1 - i)))"
proof -
  let ?es = "spec_entries (Split (TrimSpace st) newline)"
  from parsePrintedStack_result [of st]
  obtain fs where fs: "parsePrintedStack_loop (Split (TrimSpace st) newline) 0 [] = Inr fs"
    and m: "map Inr fs = map entry_frame ?es"
    and r: "parsePrintedStack st = Inr (Some \<lparr>Frames = rev fs\<rparr>)"
    by blast
  from m have len: "length fs = length ?es"
    by (metis length_map)
  have nth: "rev fs ! i = fs ! (length fs - 1 - i)" if "i < length fs" for i
    using that by (simp add: rev_nth)
  have built: "Inr (rev fs ! i) = entry_frame (?es ! (length fs - 1 - i))" if "i < length fs" for i
  proof -
    from that have k: "length fs - 1 - i < length fs"
      by simp
    then have "Inr (fs ! (length fs - 1 - i)) = map Inr fs ! (length fs - 1 - i)"
      by simp
    also have "\<dots> = entry_frame (?es ! (length fs - 1 - i))"
      using k len by (simp add: m)
    finally show ?thesis
      using that by (simp add: nth)
  qed
  let ?tr = "\<lparr>Frames = rev fs\<rparr>"
  have "parsePrintedStack_loop (Split (TrimSpace st) newline) 0 [] = Inr fs \<and>
      map Inr fs = map entry_frame ?es \<and>
      parsePrintedStack st = Inr (Some ?tr) \<and>
      length (Frames ?tr) = length ?es \<and>
      (\<forall>i<length (Frames ?tr). Frames ?tr ! i = fs ! (length fs - 1 - i)) \<and>
      (\<forall>i<length (Frames ?tr). Inr (Frames ?tr ! i) = entry_frame (?es ! (length (Frames ?tr) - 1 - i)))"
    using fs m r len nth built by simp
  then show ?thesis
    by blast
qed

theorem parsePrintedStack_reverses_entries_witness:
  "spec_entries (Split (TrimSpace (''a.f'' @ [newline, tab] @ ''x.go:1'' @ [newline] @ ''b.g'')) newline) =
     [(''a.f'', Some (tab # ''x.go:1'')), (''b.g'', None)] \<and>
   (\<exists>collected tr.
      parsePrintedStack_loop
        (Split (TrimSpace (''a.f'' @ [newline, tab] @ ''x.go:1'' @ [newline] @ ''b.g'')) newline) 0 [] =
        Inr collected \<and>
      parsePrintedStack (''a.f'' @ [newline, tab] @ ''x.go:1'' @ [newline] @ ''b.g'') = Inr (Some tr) \<and>
      length (Frames tr) = 2 \<and>
      Frames tr ! 0 = collected ! 1 \<and> Frames tr ! 1 = collected ! 0 \<and>
      Inr (Frames tr ! 0) = entry_frame (''b.g'', None) \<and>
      Inr (Frames tr ! 1) = entry_frame (''a.f'', Some (tab # ''x.go:1'')))"
proof -
  let ?st = "''a.f'' @ [newline, tab] @ ''x.go:1'' @ [newline] @ ''b.g''"
  have es: "spec_entries (Split (TrimSpace ?st) newline) =
      [(''a.f'', Some (tab # ''x.go:1'')), (''b.g'', None)]"
    by (simp add: strings_eval)
  then have "1 \<le> length (spec_entries (Split (TrimSpace ?st) newline))"
    by simp
  from parsePrintedStack_reverses_entries [OF this]
  obtain collected tr where
    c: "parsePrintedStack_loop (Split (TrimSpace ?st) newline) 0 [] = Inr collected"
    and m: "map Inr collected = map entry_frame (spec_entries (Split (TrimSpace ?st) newline))"
    and r: "parsePrintedStack ?st = Inr (Some tr)"
    and l: "length (Frames tr) = length (spec_entries (Split (TrimSpace ?st) newline))"
    and q1: "\<forall>i<length (Frames tr). Frames tr ! i = collected ! (length collected - 1 - i)"
    and q2: "\<forall>i<length (Frames tr). Inr (Frames tr ! i) =
        entry_frame (spec_entries (Split (TrimSpace ?st) newline) ! (length (Frames tr) - 1 - i))"
    by blast
  from l have l2: "length (Frames tr) = 2"
    unfolding es by simp
  from m have "length collected = length (spec_entries (Split (TrimSpace ?st) newline))"
    by (metis length_map)
  then have lc: "length collected = 2"
    unfolding es by simp
  from q1 [rule_format, of 0] q1 [rule_format, of 1]
  have o: "Frames tr ! 0 = collected ! 1" "Frames tr ! 1 = collected ! 0"
    by (simp_all add: l2 lc)
  from q2 [rule_format, of 0] q2 [rule_format, of 1]
  have b: "Inr (Frames tr ! 0) = entry_frame (''b.g'', None)"
    "Inr (Frames tr ! 1) = entry_frame (''a.f'', Some (tab # ''x.go:1''))"
    unfolding es by (simp_all add: l2)
  from es c r l2 o b show ?thesis
    by blast
qed

section \<open>Bounds and panics\<close>

text \<open>
  Claim C9. At a scan position \<open>i\<close> with \<open>0 \<le> i < len(lines)\<close>,
  \<^verbatim>\<open>parsePrintedStackEntry\<close> does not panic, and the index it returns is at least \<open>i\<close>
  and at most \<open>len(lines) - 1\<close>; and \<^verbatim>\<open>parsePrintedStack\<close> returns a result, without a
  panic, on every input string. (The loop is a total function: its termination is proved
  where it is defined, from the fact that the returned index is at least \<open>i\<close>.)
\<close>

theorem parsePrintedStack_never_panics:
  "(0 \<le> i \<and> i < int (length lines) \<longrightarrow>
      (\<exists>newI path n fnName. parsePrintedStackEntry lines i = Inr (newI, path, n, fnName) \<and>
         i \<le> newI \<and> newI \<le> int (length lines) - 1)) \<and>
   (\<exists>r. parsePrintedStack st = Inr r)"
proof (intro conjI impI)
  assume "0 \<le> i \<and> i < int (length lines)"
  then show "\<exists>newI path n fnName. parsePrintedStackEntry lines i = Inr (newI, path, n, fnName) \<and>
      i \<le> newI \<and> newI \<le> int (length lines) - 1"
    using parsePrintedStackEntry_in_bounds [of i lines] by blast
next
  show "\<exists>r. parsePrintedStack st = Inr r"
    using parsePrintedStack_result [of st] by blast
qed

theorem parsePrintedStack_never_panics_witness:
  "(\<exists>newI path n fnName.
      parsePrintedStackEntry [''a.f'', tab # ''x.go:1'', ''b.g''] 2 = Inr (newI, path, n, fnName) \<and>
      2 \<le> newI \<and> newI \<le> int (length [''a.f'', tab # ''x.go:1'', ''b.g'']) - 1) \<and>
   (\<exists>r. parsePrintedStack [tab, CHR '':''] = Inr r)"
  using parsePrintedStack_never_panics [of 2 "[''a.f'', tab # ''x.go:1'', ''b.g'']" "[tab, CHR '':'']"]
  by simp

section \<open>The entry \<^verbatim>\<open>unknown\<close>\<close>

text \<open>
  Claim C6. The entry whose first line is exactly \<^verbatim>\<open>unknown\<close>, with no second line,
  gives the frame with function \<^verbatim>\<open>unknown\<close>, module \<^verbatim>\<open>unknown\<close>, \<^verbatim>\<open>InApp\<close> false,
  line 0 and empty paths; and a text that is this entry alone (after trimming) gives a
  trace of exactly this one frame.
\<close>

theorem parsePrintedStack_unknown_entry:
  "entry_frame (''unknown'', None) =
     Inr \<lparr>AbsolutePath = '''', Filename = '''', Lineno = 0, InApp = False,
          Module = ''unknown'', Function = ''unknown''\<rparr> \<and>
   (TrimSpace st = ''unknown'' \<longrightarrow>
      parsePrintedStack st =
        Inr (Some \<lparr>Frames = [\<lparr>AbsolutePath = '''', Filename = '''', Lineno = 0, InApp = False,
                                 Module = ''unknown'', Function = ''unknown''\<rparr>]\<rparr>))"
proof (intro conjI impI)
  show "entry_frame (''unknown'', None) =
      Inr \<lparr>AbsolutePath = '''', Filename = '''', Lineno = 0, InApp = False,
           Module = ''unknown'', Function = ''unknown''\<rparr>"
    by (simp add: entry_frame_def program_eval LastIndex_def occurs_at_def)
next
  assume trimmed: "TrimSpace st = ''unknown''"
  have "TrimSpace ''unknown'' = ''unknown''"
    by (simp add: strings_eval)
  with trimmed have "parsePrintedStack st = parsePrintedStack ''unknown''"
    by (simp only: parsePrintedStack_def)
  also have "\<dots> = Inr (Some \<lparr>Frames = [\<lparr>AbsolutePath = '''', Filename = '''', Lineno = 0,
      InApp = False, Module = ''unknown'', Function = ''unknown''\<rparr>]\<rparr>)"
    by (simp add: strings_eval program_eval)
  finally show "parsePrintedStack st =
      Inr (Some \<lparr>Frames = [\<lparr>AbsolutePath = '''', Filename = '''', Lineno = 0, InApp = False,
                               Module = ''unknown'', Function = ''unknown''\<rparr>]\<rparr>)" .
qed

theorem parsePrintedStack_unknown_entry_witness:
  "TrimSpace ([newline] @ ''unknown'' @ [newline, tab]) = ''unknown'' \<and>
   parsePrintedStack ([newline] @ ''unknown'' @ [newline, tab]) =
     Inr (Some \<lparr>Frames = [\<lparr>AbsolutePath = '''', Filename = '''', Lineno = 0, InApp = False,
                              Module = ''unknown'', Function = ''unknown''\<rparr>]\<rparr>)"
proof -
  have t: "TrimSpace ([newline] @ ''unknown'' @ [newline, tab]) = ''unknown''"
    by (simp add: strings_eval)
  with parsePrintedStack_unknown_entry [of "[newline] @ ''unknown'' @ [newline, tab]"]
  show ?thesis
    by blast
qed

section \<open>Line numbers\<close>











section \<open>The resolver\<close>



end
